theory Spec2Isabelle
  imports Main
begin

section \<open>Errors\<close>

text \<open>
  Exceptions are values. \<open>KeyError\<close>, \<open>IndexError\<close> and \<open>AttributeError\<close> are the Python
  exceptions the notebook's own statements raise (a dictionary lookup of a missing key, an
  index beyond the end, a missing attribute). \<open>UnknownId\<close>, \<open>InvalidInput\<close> and
  \<open>InferenceError\<close> are raised by the parts that live in the libraries the notebook
  calls; they carry the names of the specification's taxonomy. \<open>ValueError\<close> is the
  refusal of a batch size of zero.
  The specification's \<open>UnknownLabel\<close> is the \<open>KeyError\<close> of the lookup \<open>label2id[x]\<close>.
\<close>

datatype error =
    KeyError string
  | IndexError
  | AttributeError
  | UnknownId int
  | InvalidInput
  | InferenceError
  | ValueError

section \<open>Label mapper\<close>

text \<open>
  \<^verbatim>\<open>labels = sms.select(sms.label).groupBy(sms.label).count().collect()\<close>
  is a list of rows, each with the fields \<open>label\<close> and \<open>count\<close>.
\<close>

record Row =
  label :: string
  count :: int

text \<open>
  \<^verbatim>\<open>id2label = {index: row.label for (index, row) in enumerate(labels)}\<close>
  \<^verbatim>\<open>label2id = {row.label: index for (index, row) in enumerate(labels)}\<close>
  A dictionary comprehension inserts the pairs in the order of the enumeration; a key that
  comes again overwrites the earlier entry.
\<close>

definition id2label :: "Row list \<Rightarrow> (int \<rightharpoonup> string)" where
  "id2label labels =
     fold (\<lambda>(index, row) d. d(int index \<mapsto> label row)) (enumerate 0 labels) Map.empty"

definition label2id :: "Row list \<Rightarrow> (string \<rightharpoonup> int)" where
  "label2id labels =
     fold (\<lambda>(index, row) d. d(label row \<mapsto> int index)) (enumerate 0 labels) Map.empty"

text \<open>
  A pandas series: the row labels (\<open>index\<close>) and the values. \<open>pd_Series xs\<close> is
  \<^verbatim>\<open>pd.Series(xs)\<close>, whose index is the range \<open>0, 1, ..., len(xs) - 1\<close>.
\<close>

record 'a Series =
  index :: "int list"
  "values" :: "'a list"

definition pd_Series :: "'a list \<Rightarrow> 'a Series" where
  "pd_Series xs = \<lparr>index = map int [0..<length xs], values = xs\<rparr>"

text \<open>
  \<^verbatim>\<open>series.apply(f)\<close> calls \<open>f\<close> on the values from first to last and keeps the index;
  the first call that raises ends it.
\<close>

fun apply_values :: "('a \<Rightarrow> error + 'b) \<Rightarrow> 'a list \<Rightarrow> error + 'b list" where
  "apply_values f [] = Inr []"
| "apply_values f (x # xs) =
     (case f x of
        Inl e \<Rightarrow> Inl e
      | Inr y \<Rightarrow> (case apply_values f xs of Inl e \<Rightarrow> Inl e | Inr ys \<Rightarrow> Inr (y # ys)))"

definition Series_apply :: "'a Series \<Rightarrow> ('a \<Rightarrow> error + 'b) \<Rightarrow> error + 'b Series" where
  "Series_apply s f =
     (case apply_values f (values s) of
        Inl e \<Rightarrow> Inl e
      | Inr ys \<Rightarrow> Inr \<lparr>index = index s, values = ys\<rparr>)"

text \<open>\<^verbatim>\<open>d[k]\<close> on a dictionary with string keys: \<open>KeyError\<close> when the key is missing.\<close>

definition getitem :: "(string \<rightharpoonup> 'v) \<Rightarrow> string \<Rightarrow> error + 'v" where
  "getitem d k = (case d k of None \<Rightarrow> Inl (KeyError k) | Some v \<Rightarrow> Inr v)"

text \<open>
  \<^verbatim>\<open>def replace_labels_with_ids(labels): return labels.apply(lambda x: label2id[x])\<close>
  The dictionary \<open>label2id\<close> is a global of the notebook; here it is the first argument.
\<close>

definition replace_labels_with_ids :: "(string \<rightharpoonup> int) \<Rightarrow> string Series \<Rightarrow> error + int Series" where
  "replace_labels_with_ids l2i labels = Series_apply labels (\<lambda>x. getitem l2i x)"

text \<open>
  Modelled from the spec: \<open>decode\<close>, the inverse lookup, which the notebook does not define
  (the \<open>id2label\<close> dictionary is handed to the model's configuration and read inside the
  transformers library). The specification: for every element, the label of the ID in
  \<open>id_to_label\<close>; fails with \<open>UnknownId\<close> if an ID falls outside the table.
\<close>

definition decode_id :: "(int \<rightharpoonup> string) \<Rightarrow> int \<Rightarrow> error + string" where
  "decode_id i2l i = (case i2l i of None \<Rightarrow> Inl (UnknownId i) | Some s \<Rightarrow> Inr s)"

text \<open>
  Modelled from the spec: \<open>decode\<close> on a sequence of IDs, the lookup above for every
  element in turn, ended by the first ID that is not in the table.
\<close>

definition decode :: "(int \<rightharpoonup> string) \<Rightarrow> int list \<Rightarrow> error + string list" where
  "decode i2l ids = apply_values (decode_id i2l) ids"

text \<open>
  The specification's \<open>encode\<close> on a sequence of labels: \<open>replace_labels_with_ids\<close> on the
  series of that sequence, read back as the sequence of its values.
\<close>

definition encode :: "(string \<rightharpoonup> int) \<Rightarrow> string list \<Rightarrow> error + int list" where
  "encode l2i xs =
     (case replace_labels_with_ids l2i (pd_Series xs) of
        Inl e \<Rightarrow> Inl e
      | Inr s \<Rightarrow> Inr (values s))"

section \<open>Data frames\<close>

text \<open>
  A cell of a column holds a Python object: a string, or something that is not one
  (a number, \<open>None\<close>).
\<close>

datatype cell = Str string | Num int | Null

fun is_text :: "cell \<Rightarrow> bool" where
  "is_text (Str t) = True"
| "is_text (Num n) = False"
| "is_text Null = False"

fun the_text :: "cell \<Rightarrow> string" where
  "the_text (Str t) = t"
| "the_text (Num n) = []"
| "the_text Null = []"

text \<open>
  A pandas data frame: the row labels and the columns in order, each a pair of its column
  label and its values. Column labels may repeat.
\<close>

record DataFrame =
  frame_index :: "int list"
  frame_columns :: "(string \<times> cell list) list"

text \<open>\<^verbatim>\<open>df.columns\<close>: the column labels in order.\<close>

definition columns :: "DataFrame \<Rightarrow> string list" where
  "columns df = map fst (frame_columns df)"

text \<open>\<^verbatim>\<open>xs[0]\<close>: \<open>IndexError\<close> on an empty sequence.\<close>

definition first_item :: "'a list \<Rightarrow> error + 'a" where
  "first_item xs = (case xs of [] \<Rightarrow> Inl IndexError | x # _ \<Rightarrow> Inr x)"

text \<open>
  \<^verbatim>\<open>df[name]\<close> selects by column label: a series when exactly one column has the label,
  a data frame of all the columns that have it when the label is repeated, \<open>KeyError\<close>
  when no column has it.
\<close>

datatype selection = OneColumn "cell Series" | ManyColumns DataFrame

definition frame_getitem :: "DataFrame \<Rightarrow> string \<Rightarrow> error + selection" where
  "frame_getitem df name =
     (case filter (\<lambda>col. fst col = name) (frame_columns df) of
        [] \<Rightarrow> Inl (KeyError name)
      | [col] \<Rightarrow> Inr (OneColumn \<lparr>index = frame_index df, values = snd col\<rparr>)
      | col # col' # cols \<Rightarrow>
          Inr (ManyColumns \<lparr>frame_index = frame_index df, frame_columns = col # col' # cols\<rparr>))"

text \<open>\<^verbatim>\<open>.to_list()\<close>: a series has it, a data frame does not (\<open>AttributeError\<close>).\<close>

definition to_list :: "selection \<Rightarrow> error + cell list" where
  "to_list sel = (case sel of OneColumn s \<Rightarrow> Inr (values s) | ManyColumns df \<Rightarrow> Inl AttributeError)"

section \<open>The text-classification pipeline\<close>

text \<open>
  The pipeline object is made by the transformers library
  (\<^verbatim>\<open>pipeline("text-classification", model=..., batch_size=8, tokenizer=tokenizer)\<close>);
  the notebook only constructs and calls it. Its parts are parameters here: the tokenizer
  (a text to its token IDs), the model's maximum sequence length, the model (a batch of
  token sequences to one vector of class scores per sequence, \<open>None\<close> when the invocation
  raises), the \<open>id2label\<close> table of the model's configuration, and the batch size given at
  construction.
\<close>

record 's Pipeline =
  tokenizer :: "string \<Rightarrow> nat list"
  model_max_length :: nat
  model :: "nat list list \<Rightarrow> 's list list option"
  config_id2label :: "int \<rightharpoonup> string"
  batch_size :: nat

text \<open>A prediction is the dictionary \<^verbatim>\<open>{'label': ..., 'score': ...}\<close>.\<close>

record 's prediction =
  pred_label :: string
  pred_score :: 's

text \<open>The batches of token sequences submitted to the model during a call, in order.\<close>

type_synonym model_calls = "nat list list list"

text \<open>
  The call of the pipeline on a list of texts is code of the transformers library, not of
  the notebook. The functions from \<open>chunks\<close> to \<open>pipeline_call\<close> model it from the
  specification (4.2, 6, 7): the texts are partitioned into chunks of at most
  \<open>batch_size\<close>; each chunk is submitted for inference in turn; for each input of the chunk
  the argmax over the model's class scores is decoded through \<open>id_to_label\<close>; inputs longer
  than the model's maximum sequence length are truncated when \<open>truncation\<close> is set; a
  non-string input is refused with \<open>InvalidInput\<close>; a model invocation that raises is an
  \<open>InferenceError\<close> of its chunk. The notebook hands the whole column to the pipeline
  unchecked, so the inputs of a chunk are looked at when that chunk is prepared for the
  model, one chunk after the other.
\<close>

text \<open>
  Modelled from the spec: the partition of the texts into chunks of at most \<open>n\<close>, in order
  (the batching inside the pipeline call).
\<close>

function chunks :: "nat \<Rightarrow> 'a list \<Rightarrow> 'a list list" where
  "chunks n xs = (if n = 0 \<or> xs = [] then [] else take n xs # chunks n (drop n xs))"
  by pat_completeness auto
termination
  by (relation "measure (\<lambda>(n, xs). length xs)") auto

declare chunks.simps [simp del]

text \<open>
  Modelled from the spec: the preparation of one input inside the pipeline call: a string
  is tokenized and, with \<open>truncation\<close>, cut to the maximum sequence length; anything else
  is refused with \<open>InvalidInput\<close>.
\<close>

definition preprocess :: "'s Pipeline \<Rightarrow> bool \<Rightarrow> cell \<Rightarrow> error + nat list" where
  "preprocess p truncation c =
     (case c of
        Str t \<Rightarrow> Inr (if truncation then take (model_max_length p) (tokenizer p t)
                      else tokenizer p t)
      | Num n \<Rightarrow> Inl InvalidInput
      | Null \<Rightarrow> Inl InvalidInput)"

text \<open>
  Modelled from the spec: the argmax over a vector of class scores inside the pipeline
  call, the position of the first greatest score; there is none in an empty vector.
\<close>

fun argmax :: "('s :: linorder) list \<Rightarrow> nat option" where
  "argmax [] = None"
| "argmax (x # xs) =
     (case argmax xs of
        None \<Rightarrow> Some 0
      | Some j \<Rightarrow> if xs ! j \<le> x then Some 0 else Some (Suc j))"

text \<open>
  Modelled from the spec: the prediction the pipeline call makes of one vector of class
  scores: the argmax, decoded through the configuration's \<open>id2label\<close>.
\<close>

definition postprocess :: "('s :: linorder) Pipeline \<Rightarrow> 's list \<Rightarrow> error + 's prediction" where
  "postprocess p scores =
     (case argmax scores of
        None \<Rightarrow> Inl InferenceError
      | Some k \<Rightarrow>
          (case decode_id (config_id2label p) (int k) of
             Inl e \<Rightarrow> Inl e
           | Inr l \<Rightarrow> Inr \<lparr>pred_label = l, pred_score = scores ! k\<rparr>))"

text \<open>
  Modelled from the spec: the inference on one chunk inside the pipeline call: the inputs
  are prepared, the batch is submitted to the model (and recorded), and each vector of
  scores becomes a prediction. A model invocation that raises is an \<open>InferenceError\<close>.
\<close>

definition infer_chunk ::
  "('s :: linorder) Pipeline \<Rightarrow> bool \<Rightarrow> cell list \<Rightarrow> model_calls \<times> (error + 's prediction list)" where
  "infer_chunk p truncation chunk =
     (case apply_values (preprocess p truncation) chunk of
        Inl e \<Rightarrow> ([], Inl e)
      | Inr batch \<Rightarrow>
          (case model p batch of
             None \<Rightarrow> ([batch], Inl InferenceError)
           | Some outputs \<Rightarrow> ([batch], apply_values (postprocess p) outputs)))"

text \<open>
  Modelled from the spec: the chunks are submitted one after the other; the first chunk
  that fails ends the call with its error, and the earlier batches have been submitted.
\<close>

fun run_chunks ::
  "('s :: linorder) Pipeline \<Rightarrow> bool \<Rightarrow> cell list list \<Rightarrow> model_calls \<times> (error + 's prediction list)" where
  "run_chunks p truncation [] = ([], Inr [])"
| "run_chunks p truncation (c # cs) =
     (case infer_chunk p truncation c of
        (calls, Inl e) \<Rightarrow> (calls, Inl e)
      | (calls, Inr ys) \<Rightarrow>
          (case run_chunks p truncation cs of
             (calls', Inl e) \<Rightarrow> (calls @ calls', Inl e)
           | (calls', Inr ys') \<Rightarrow> (calls @ calls', Inr (ys @ ys'))))"

text \<open>
  Modelled from the spec: the pipeline call \<^verbatim>\<open>pipe(texts, truncation=..., batch_size=...)\<close>
  of the transformers library. A batch size given at the call takes the place of the one
  given at construction. The specification takes the batch size to be positive; a zero one
  is refused.
\<close>

definition pipeline_call ::
  "('s :: linorder) Pipeline \<Rightarrow> cell list \<Rightarrow> bool \<Rightarrow> nat option
     \<Rightarrow> model_calls \<times> (error + 's prediction list)" where
  "pipeline_call p texts truncation batch_size_arg =
     (let bs = (case batch_size_arg of None \<Rightarrow> batch_size p | Some b \<Rightarrow> b)
      in if bs = 0 then ([], Inl ValueError)
         else run_chunks p truncation (chunks bs texts))"

text \<open>
  Modelled from the spec: the call of the library's tokenizer on a list of texts, one
  token sequence per text, cut to the maximum sequence length when \<open>truncation\<close> is set.
  The tokenization of one text and the maximum length are parameters.
\<close>

definition tokenizer_call :: "(string \<Rightarrow> nat list) \<Rightarrow> nat \<Rightarrow> string list \<Rightarrow> bool \<Rightarrow> nat list list" where
  "tokenizer_call tok max_length texts truncation =
     map (\<lambda>t. if truncation then take max_length (tok t) else tok t) texts"

text \<open>
  \<^verbatim>\<open>def tokenize_function(examples):\<close>
  \<^verbatim>\<open>    return tokenizer(examples["text"], padding=False, truncation=True)\<close>
\<close>

definition tokenize_function :: "(string \<Rightarrow> nat list) \<Rightarrow> nat \<Rightarrow> string list \<Rightarrow> nat list list" where
  "tokenize_function tok max_length examples_text = tokenizer_call tok max_length examples_text True"

section \<open>Scoring wrapper\<close>

text \<open>
  \<^verbatim>\<open>class TextClassificationPipelineModel(mlflow.pyfunc.PythonModel)\<close>: the object has
  the attribute \<open>pipeline\<close> once \<open>load_context\<close> has run. The context carries the artifacts
  (name to path); \<open>predict\<close> does not read it.
\<close>

record 's TextClassificationPipelineModel =
  pipeline :: "'s Pipeline option"

record Context =
  artifacts :: "string \<rightharpoonup> string"

text \<open>
  \<^verbatim>\<open>
  def predict(self, context, model_input):
    texts = model_input[model_input.columns[0]].to_list()
    pipe = tqdm(self.pipeline(texts, truncation=True, batch_size=8), total=len(texts), miniters=10)
    labels = [prediction['label'] for prediction in pipe]
    return pd.Series(labels)
  \<close>
  \<open>tqdm\<close> hands on the items of its argument unchanged. The value of \<open>predict\<close> is the
  batches the model was invoked on during the call and the returned series or the raised
  error, paired with the object after the call.
\<close>

definition predict ::
  "('s :: linorder) TextClassificationPipelineModel \<Rightarrow> Context \<Rightarrow> DataFrame
     \<Rightarrow> (model_calls \<times> (error + string Series)) \<times> 's TextClassificationPipelineModel" where
  "predict self context model_input =
     (case first_item (columns model_input) of
        Inl e \<Rightarrow> (([], Inl e), self)
      | Inr name \<Rightarrow>
     (case frame_getitem model_input name of
        Inl e \<Rightarrow> (([], Inl e), self)
      | Inr sel \<Rightarrow>
     (case to_list sel of
        Inl e \<Rightarrow> (([], Inl e), self)
      | Inr texts \<Rightarrow>
     (case pipeline self of
        None \<Rightarrow> (([], Inl AttributeError), self)
      | Some p \<Rightarrow>
     (case pipeline_call p texts True (Some 8) of
        (calls, Inl e) \<Rightarrow> ((calls, Inl e), self)
      | (calls, Inr pipe) \<Rightarrow>
          ((calls, Inr (pd_Series (map pred_label pipe))), self))))))"

text \<open>
  What the claims speak of: the texts after tokenization and truncation, the batch a chunk
  of texts becomes, and the label the pipeline gives to one text when the model's scores
  for a token sequence are \<open>f\<close>.
\<close>

definition truncated_tokens :: "'s Pipeline \<Rightarrow> string \<Rightarrow> nat list" where
  "truncated_tokens p t = take (model_max_length p) (tokenizer p t)"

definition batch_of :: "'s Pipeline \<Rightarrow> cell list \<Rightarrow> nat list list" where
  "batch_of p chunk = map (\<lambda>c. truncated_tokens p (the_text c)) chunk"

definition label_for :: "('s :: linorder) Pipeline \<Rightarrow> (nat list \<Rightarrow> 's list) \<Rightarrow> string \<Rightarrow> string" where
  "label_for p f t =
     the (config_id2label p (int (the (argmax (f (truncated_tokens p t))))))"

text \<open>
  The contract of the model: on every batch whose sequences are within the maximum length
  the invocation returns the scores \<open>f s\<close> for each sequence \<open>s\<close> (one vector per sequence,
  independent of the rest of the batch), and the greatest score of such a vector is at a
  position that the configuration's \<open>id2label\<close> knows.
\<close>

definition model_answers :: "('s :: linorder) Pipeline \<Rightarrow> (nat list \<Rightarrow> 's list) \<Rightarrow> bool" where
  "model_answers p f \<longleftrightarrow>
     (\<forall>batch. (\<forall>s \<in> set batch. length s \<le> model_max_length p)
         \<longrightarrow> model p batch = Some (map f batch))
   \<and> (\<forall>s. length s \<le> model_max_length p
         \<longrightarrow> (\<exists>k l. argmax (f s) = Some k \<and> config_id2label p (int k) = Some l))"

text \<open>
  A small pipeline for the concrete scenarios: two tokens (1 for the letters f and w, 0 for
  any other character), at most 8 tokens per sequence, a model that refuses a batch with a
  longer sequence and otherwise scores spam over ham exactly when the first token is 1,
  and the table of the labels ham, spam.
\<close>

definition example_scores :: "nat list \<Rightarrow> int list" where
  "example_scores s = (if take 1 s = [1] then [1, 5] else [5, 1])"

definition example_pipeline :: "int Pipeline" where
  "example_pipeline =
     \<lparr>tokenizer = map (\<lambda>c. if c = CHR ''f'' \<or> c = CHR ''w'' then 1 else 0),
      model_max_length = 8,
      model = (\<lambda>batch. if list_all (\<lambda>s. length s \<le> 8) batch
                        then Some (map example_scores batch) else None),
      config_id2label = id2label [\<lparr>label = ''ham'', count = 4827\<rparr>, \<lparr>label = ''spam'', count = 747\<rparr>],
      batch_size = 8\<rparr>"


section \<open>Properties of the label mapper\<close>

lemma id2label_fold:
  "fold (\<lambda>(index, row) d. d(int index \<mapsto> label row)) (enumerate n rows) m =
     (\<lambda>i. if int n \<le> i \<and> i < int (n + length rows)
           then Some (label (rows ! (nat i - n))) else m i)"
proof (induction rows arbitrary: n m)
  case Nil
  then show ?case by (auto simp: fun_eq_iff)
next
  case (Cons r rows)
  show ?case
  proof (rule ext)
    fix i :: int
    consider "i = int n" | "int n < i" "i < int (Suc n + length rows)"
      | "i < int n" | "int (Suc n + length rows) \<le> i"
      by linarith
    then show "fold (\<lambda>(index, row) d. d(int index \<mapsto> label row)) (enumerate n (r # rows)) m i =
        (if int n \<le> i \<and> i < int (n + length (r # rows))
         then Some (label ((r # rows) ! (nat i - n))) else m i)"
    proof cases
      case 1
      then show ?thesis by (simp add: Cons.IH)
    next
      case 2
      then have "nat i - n = Suc (nat i - Suc n)" by linarith
      with 2 show ?thesis by (simp add: Cons.IH)
    next
      case 3
      then show ?thesis by (simp add: Cons.IH)
    next
      case 4
      then show ?thesis by (simp add: Cons.IH)
    qed
  qed
qed

lemma id2label_eq:
  "id2label labels i =
     (if 0 \<le> i \<and> i < int (length labels) then Some (label (labels ! nat i)) else None)"
  by (simp add: id2label_def id2label_fold)

lemma label2id_fold_notin:
  "s \<notin> label ` set rows \<Longrightarrow>
   fold (\<lambda>(index, row) d. d(label row \<mapsto> int index)) (enumerate n rows) m s = m s"
  by (induction rows arbitrary: n m) auto

lemma label2id_fold_distinct:
  "distinct (map label rows) \<Longrightarrow> k < length rows \<Longrightarrow>
   fold (\<lambda>(index, row) d. d(label row \<mapsto> int index)) (enumerate n rows) m (label (rows ! k))
     = Some (int (n + k))"
proof (induction rows arbitrary: n m k)
  case Nil
  then show ?case by simp
next
  case (Cons r rows)
  show ?case
  proof (cases k)
    case 0
    from Cons.prems have "label r \<notin> label ` set rows" by simp
    then have "fold (\<lambda>(index, row) d. d(label row \<mapsto> int index)) (enumerate (Suc n) rows)
        (m(label r \<mapsto> int n)) (label r) = (m(label r \<mapsto> int n)) (label r)"
      by (rule label2id_fold_notin)
    also have "\<dots> = Some (int n)" by simp
    finally show ?thesis using 0 by (simp del: fun_upd_apply)
  next
    case (Suc j)
    with Cons.prems have "distinct (map label rows)" "j < length rows" by simp_all
    from Cons.IH [OF this] Suc show ?thesis by simp
  qed
qed

lemma label2id_nth:
  "distinct (map label labels) \<Longrightarrow> k < length labels \<Longrightarrow>
   label2id labels (label (labels ! k)) = Some (int k)"
  using label2id_fold_distinct [of labels k 0 Map.empty] by (simp add: label2id_def)

lemma label2id_notin:
  "s \<notin> label ` set labels \<Longrightarrow> label2id labels s = None"
  by (simp add: label2id_def label2id_fold_notin)

lemma label2id_Some_iff:
  assumes "distinct (map label labels)"
  shows "label2id labels s = Some i \<longleftrightarrow>
         (0 \<le> i \<and> i < int (length labels) \<and> label (labels ! nat i) = s)"
proof
  assume L: "label2id labels s = Some i"
  then have "s \<in> label ` set labels" using label2id_notin by fastforce
  then obtain k where k: "k < length labels" "label (labels ! k) = s"
    by (auto simp: in_set_conv_nth)
  with assms L have "i = int k" using label2id_nth by fastforce
  with k show "0 \<le> i \<and> i < int (length labels) \<and> label (labels ! nat i) = s" by simp
next
  assume R: "0 \<le> i \<and> i < int (length labels) \<and> label (labels ! nat i) = s"
  then have "nat i < length labels" by linarith
  from label2id_nth [OF assms this] R show "label2id labels s = Some i" by simp
qed

lemma label2id_fold_labels:
  "fold (\<lambda>(index, row) d. d(label row \<mapsto> int index)) (enumerate n rows) m =
   fold (\<lambda>(index, s) d. d(s \<mapsto> int index)) (enumerate n (map label rows)) m"
  by (induction rows arbitrary: n m) simp_all

lemma apply_values_getitem:
  "set xs \<subseteq> dom d \<Longrightarrow> apply_values (getitem d) xs = Inr (map (\<lambda>x. the (d x)) xs)"
  by (induction xs) (auto simp: getitem_def)

lemma apply_values_getitem_missing:
  "x \<in> set xs \<Longrightarrow> d x = None \<Longrightarrow>
   \<exists>y \<in> set xs. d y = None \<and> apply_values (getitem d) xs = Inl (KeyError y)"
proof (induction xs)
  case Nil
  then show ?case by simp
next
  case (Cons a xs)
  show ?case
  proof (cases "d a")
    case None
    then show ?thesis by (auto simp: getitem_def)
  next
    case (Some v)
    with Cons.prems have "x \<in> set xs" by auto
    from Cons.IH [OF this Cons.prems(2)] Some show ?thesis
      by (auto simp: getitem_def)
  qed
qed

lemma encode_eq: "encode l2i xs = apply_values (getitem l2i) xs"
  by (simp add: encode_def replace_labels_with_ids_def Series_apply_def pd_Series_def
      split: sum.splits)

lemma decode_after_lookup:
  "distinct (map label labels) \<Longrightarrow> set xs \<subseteq> label ` set labels \<Longrightarrow>
   decode (id2label labels) (map (\<lambda>x. the (label2id labels x)) xs) = Inr xs"
proof (induction xs)
  case Nil
  then show ?case by (simp add: decode_def)
next
  case (Cons x xs)
  from Cons.prems obtain k where k: "k < length labels" "label (labels ! k) = x"
    by (auto simp: in_set_conv_nth)
  with Cons.prems have "label2id labels x = Some (int k)"
    using label2id_nth by blast
  moreover from k have "id2label labels (int k) = Some x"
    by (simp add: id2label_eq)
  moreover from Cons have "decode (id2label labels) (map (\<lambda>x. the (label2id labels x)) xs) = Inr xs"
    by simp
  ultimately show ?case by (simp add: decode_def decode_id_def)
qed

lemma dom_label2id:
  "distinct (map label labels) \<Longrightarrow> dom (label2id labels) = label ` set labels"
proof -
  assume d: "distinct (map label labels)"
  have "\<And>s. s \<in> label ` set labels \<Longrightarrow> s \<in> dom (label2id labels)"
  proof -
    fix s assume "s \<in> label ` set labels"
    then obtain k where "k < length labels" "label (labels ! k) = s"
      by (auto simp: in_set_conv_nth)
    with d show "s \<in> dom (label2id labels)" using label2id_nth by blast
  qed
  moreover have "\<And>s. s \<in> dom (label2id labels) \<Longrightarrow> s \<in> label ` set labels"
    using label2id_notin by fastforce
  ultimately show ?thesis by blast
qed

section \<open>Claims about the label mapper\<close>

text \<open>
  C3. For a sequence of K rows with distinct labels, \<open>label2id\<close> and \<open>id2label\<close> are
  inverse to each other (\<open>label2id s = i\<close> exactly when \<open>id2label i = s\<close>), the keys of
  \<open>label2id\<close> are the labels, the keys of \<open>id2label\<close> and the IDs handed out are exactly
  \<open>0, ..., K - 1\<close>, no two labels share an ID, and the ID of a label is its position in the
  enumeration.
\<close>

theorem build_inverse_contiguous:
  assumes "distinct (map label labels)"
  shows "(\<forall>s i. label2id labels s = Some i \<longleftrightarrow> id2label labels i = Some s)
       \<and> dom (label2id labels) = label ` set labels
       \<and> dom (id2label labels) = {i. 0 \<le> i \<and> i < int (length labels)}
       \<and> ran (label2id labels) = {i. 0 \<le> i \<and> i < int (length labels)}
       \<and> inj_on (label2id labels) (label ` set labels)
       \<and> (\<forall>k < length labels.
            label2id labels (label (labels ! k)) = Some (int k)
          \<and> id2label labels (int k) = Some (label (labels ! k)))"
proof -
  have inv: "\<forall>s i. label2id labels s = Some i \<longleftrightarrow> id2label labels i = Some s"
    using label2id_Some_iff [OF assms] by (auto simp: id2label_eq)
  have d1: "dom (label2id labels) = label ` set labels"
    by (rule dom_label2id [OF assms])
  have d2: "dom (id2label labels) = {i. 0 \<le> i \<and> i < int (length labels)}"
    by (auto simp: dom_def id2label_eq)
  have "ran (label2id labels) = dom (id2label labels)"
    using inv by (auto simp: ran_def dom_def)
  with d2 have r: "ran (label2id labels) = {i. 0 \<le> i \<and> i < int (length labels)}"
    by simp
  have inj: "inj_on (label2id labels) (label ` set labels)"
  proof (rule inj_onI)
    fix s t
    assume s: "s \<in> label ` set labels" and t: "t \<in> label ` set labels"
      and eq: "label2id labels s = label2id labels t"
    from s d1 obtain i where i: "label2id labels s = Some i" by auto
    with eq have "label2id labels t = Some i" by simp
    with i inv have "id2label labels i = Some s" "id2label labels i = Some t" by auto
    then show "s = t" by simp
  qed
  have pos: "\<forall>k < length labels.
      label2id labels (label (labels ! k)) = Some (int k)
    \<and> id2label labels (int k) = Some (label (labels ! k))"
    using label2id_nth [OF assms] by (simp add: id2label_eq)
  from inv d1 d2 r inj pos show ?thesis by blast
qed

theorem build_inverse_contiguous_witness:
  "distinct (map label [\<lparr>label = ''ham'', count = 4827\<rparr>, \<lparr>label = ''spam'', count = 747\<rparr>])
   \<and> label2id [\<lparr>label = ''ham'', count = 4827\<rparr>, \<lparr>label = ''spam'', count = 747\<rparr>] ''spam'' = Some 1
   \<and> id2label [\<lparr>label = ''ham'', count = 4827\<rparr>, \<lparr>label = ''spam'', count = 747\<rparr>] 1 = Some ''spam''
   \<and> ran (label2id [\<lparr>label = ''ham'', count = 4827\<rparr>, \<lparr>label = ''spam'', count = 747\<rparr>])
       = {i. 0 \<le> i \<and> i < 2}"
proof -
  have d: "distinct (map label [\<lparr>label = ''ham'', count = 4827\<rparr>, \<lparr>label = ''spam'', count = 747\<rparr>])"
    by simp
  from build_inverse_contiguous [OF d] have
    "\<forall>k < 2. label2id [\<lparr>label = ''ham'', count = 4827\<rparr>, \<lparr>label = ''spam'', count = 747\<rparr>]
               (label ([\<lparr>label = ''ham'', count = 4827\<rparr>, \<lparr>label = ''spam'', count = 747\<rparr>] ! k)) = Some (int k)
           \<and> id2label [\<lparr>label = ''ham'', count = 4827\<rparr>, \<lparr>label = ''spam'', count = 747\<rparr>] (int k)
               = Some (label ([\<lparr>label = ''ham'', count = 4827\<rparr>, \<lparr>label = ''spam'', count = 747\<rparr>] ! k))"
    and r: "ran (label2id [\<lparr>label = ''ham'', count = 4827\<rparr>, \<lparr>label = ''spam'', count = 747\<rparr>])
       = {i. 0 \<le> i \<and> i < int (length [\<lparr>label = ''ham'', count = 4827\<rparr>, \<lparr>label = ''spam'', count = 747\<rparr>])}"
    by simp_all
  from this(1) [rule_format, of 1] r d show ?thesis by simp
qed

text \<open>
  C9. The two tables are determined by the enumeration of the labels alone: two runs that
  enumerate the same labels in the same order build identical \<open>id2label\<close> and \<open>label2id\<close>
  tables, whatever else the collected rows carry.
\<close>

theorem label_tables_deterministic:
  assumes "map label labels1 = map label labels2"
  shows "id2label labels1 = id2label labels2 \<and> label2id labels1 = label2id labels2"
proof
  from assms have len: "length labels1 = length labels2"
    by (rule map_eq_imp_length_eq)
  have "\<And>i. 0 \<le> i \<Longrightarrow> i < int (length labels1) \<Longrightarrow>
      label (labels1 ! nat i) = label (labels2 ! nat i)"
  proof -
    fix i :: int
    assume "0 \<le> i" "i < int (length labels1)"
    then have n: "nat i < length labels1" by linarith
    then have "label (labels1 ! nat i) = map label labels1 ! nat i" by simp
    also have "\<dots> = map label labels2 ! nat i" using assms by simp
    also have "\<dots> = label (labels2 ! nat i)" using n len by simp
    finally show "label (labels1 ! nat i) = label (labels2 ! nat i)" .
  qed
  with len show "id2label labels1 = id2label labels2"
    by (auto simp: fun_eq_iff id2label_eq)
next
  show "label2id labels1 = label2id labels2"
    using assms by (simp add: label2id_def label2id_fold_labels)
qed

theorem label_tables_deterministic_witness:
  "map label [\<lparr>label = ''ham'', count = 4827\<rparr>, \<lparr>label = ''spam'', count = 747\<rparr>]
     = map label [\<lparr>label = ''ham'', count = 1\<rparr>, \<lparr>label = ''spam'', count = 2\<rparr>]
   \<and> id2label [\<lparr>label = ''ham'', count = 4827\<rparr>, \<lparr>label = ''spam'', count = 747\<rparr>]
     = id2label [\<lparr>label = ''ham'', count = 1\<rparr>, \<lparr>label = ''spam'', count = 2\<rparr>]
   \<and> label2id [\<lparr>label = ''ham'', count = 4827\<rparr>, \<lparr>label = ''spam'', count = 747\<rparr>]
     = label2id [\<lparr>label = ''ham'', count = 1\<rparr>, \<lparr>label = ''spam'', count = 2\<rparr>]"
proof -
  have m: "map label [\<lparr>label = ''ham'', count = 4827\<rparr>, \<lparr>label = ''spam'', count = 747\<rparr>]
     = map label [\<lparr>label = ''ham'', count = 1\<rparr>, \<lparr>label = ''spam'', count = 2\<rparr>]"
    by simp
  from label_tables_deterministic [OF m] m show ?thesis by blast
qed

text \<open>
  C4. Whatever the table, if the series holds a label that is not a key of the table, then
  \<open>replace_labels_with_ids\<close> raises the \<open>KeyError\<close> of a label of the series that is not in
  the table (the specification's \<open>UnknownLabel\<close>): it returns no series, so no ID stands in
  for the missing label.
\<close>

theorem replace_labels_with_ids_unknown_label:
  assumes "x \<in> set (values labels)" and "l2i x = None"
  shows "\<exists>y \<in> set (values labels). l2i y = None
           \<and> replace_labels_with_ids l2i labels = Inl (KeyError y)"
proof -
  from apply_values_getitem_missing [of x "values labels" l2i, OF assms] obtain y where
    "y \<in> set (values labels)" "l2i y = None"
    "apply_values (getitem l2i) (values labels) = Inl (KeyError y)"
    by blast
  then show ?thesis
    by (auto simp: replace_labels_with_ids_def Series_apply_def)
qed

theorem replace_labels_with_ids_unknown_label_witness:
  "''eggs'' \<in> set (values (pd_Series [''ham'', ''eggs'', ''spam'']))
   \<and> label2id [\<lparr>label = ''ham'', count = 4827\<rparr>, \<lparr>label = ''spam'', count = 747\<rparr>] ''eggs'' = None
   \<and> replace_labels_with_ids
        (label2id [\<lparr>label = ''ham'', count = 4827\<rparr>, \<lparr>label = ''spam'', count = 747\<rparr>])
        (pd_Series [''ham'', ''eggs'', ''spam'']) = Inl (KeyError ''eggs'')"
proof -
  have a: "''eggs'' \<in> set (values (pd_Series [''ham'', ''eggs'', ''spam'']))"
    by (simp add: pd_Series_def)
  have b: "label2id [\<lparr>label = ''ham'', count = 4827\<rparr>, \<lparr>label = ''spam'', count = 747\<rparr>] ''eggs'' = None"
    by (simp add: label2id_def)
  have c: "label2id [\<lparr>label = ''ham'', count = 4827\<rparr>, \<lparr>label = ''spam'', count = 747\<rparr>] ''ham'' \<noteq> None"
    "label2id [\<lparr>label = ''ham'', count = 4827\<rparr>, \<lparr>label = ''spam'', count = 747\<rparr>] ''spam'' \<noteq> None"
    by (simp_all add: label2id_def)
  from replace_labels_with_ids_unknown_label
    [of "''eggs''" "pd_Series [''ham'', ''eggs'', ''spam'']"
        "label2id [\<lparr>label = ''ham'', count = 4827\<rparr>, \<lparr>label = ''spam'', count = 747\<rparr>]", OF a b]
    a b c show ?thesis
    by (auto simp: pd_Series_def)
qed

text \<open>
  C2. For rows with distinct labels and any sequence of labels drawn from them, encoding
  with \<open>label2id\<close> succeeds and decoding the IDs with \<open>id2label\<close> gives the sequence back.
  With the labels enumerated as ham, spam: encoding spam, ham, spam gives 1, 0, 1 and
  decoding 1, 0, 1 gives spam, ham, spam.
\<close>

theorem encode_decode_roundtrip:
  "(distinct (map label labels) \<and> set xs \<subseteq> label ` set labels \<longrightarrow>
      (\<exists>ids. encode (label2id labels) xs = Inr ids \<and> decode (id2label labels) ids = Inr xs))
   \<and> encode (label2id [\<lparr>label = ''ham'', count = c0\<rparr>, \<lparr>label = ''spam'', count = c1\<rparr>])
        [''spam'', ''ham'', ''spam''] = Inr [1, 0, 1]
   \<and> decode (id2label [\<lparr>label = ''ham'', count = c0\<rparr>, \<lparr>label = ''spam'', count = c1\<rparr>])
        [1, 0, 1] = Inr [''spam'', ''ham'', ''spam'']"
proof (intro conjI impI)
  assume a: "distinct (map label labels) \<and> set xs \<subseteq> label ` set labels"
  then have "set xs \<subseteq> dom (label2id labels)" by (simp add: dom_label2id)
  then have "encode (label2id labels) xs = Inr (map (\<lambda>x. the (label2id labels x)) xs)"
    by (simp add: encode_eq apply_values_getitem)
  moreover from a have
    "decode (id2label labels) (map (\<lambda>x. the (label2id labels x)) xs) = Inr xs"
    by (simp add: decode_after_lookup)
  ultimately show
    "\<exists>ids. encode (label2id labels) xs = Inr ids \<and> decode (id2label labels) ids = Inr xs"
    by blast
next
  show "encode (label2id [\<lparr>label = ''ham'', count = c0\<rparr>, \<lparr>label = ''spam'', count = c1\<rparr>])
        [''spam'', ''ham'', ''spam''] = Inr [1, 0, 1]"
    by (simp add: encode_eq label2id_def getitem_def)
next
  show "decode (id2label [\<lparr>label = ''ham'', count = c0\<rparr>, \<lparr>label = ''spam'', count = c1\<rparr>])
        [1, 0, 1] = Inr [''spam'', ''ham'', ''spam'']"
    by (simp add: decode_def decode_id_def id2label_def)
qed

theorem encode_decode_roundtrip_witness:
  "distinct (map label [\<lparr>label = ''ham'', count = 4827\<rparr>, \<lparr>label = ''spam'', count = 747\<rparr>])
   \<and> set [''spam'', ''ham'', ''spam'']
       \<subseteq> label ` set [\<lparr>label = ''ham'', count = 4827\<rparr>, \<lparr>label = ''spam'', count = 747\<rparr>]
   \<and> (\<exists>ids. encode (label2id [\<lparr>label = ''ham'', count = 4827\<rparr>, \<lparr>label = ''spam'', count = 747\<rparr>])
               [''spam'', ''ham'', ''spam''] = Inr ids
           \<and> decode (id2label [\<lparr>label = ''ham'', count = 4827\<rparr>, \<lparr>label = ''spam'', count = 747\<rparr>])
               ids = Inr [''spam'', ''ham'', ''spam''])"
proof -
  have h: "distinct (map label [\<lparr>label = ''ham'', count = 4827\<rparr>, \<lparr>label = ''spam'', count = 747\<rparr>])
   \<and> set [''spam'', ''ham'', ''spam'']
       \<subseteq> label ` set [\<lparr>label = ''ham'', count = 4827\<rparr>, \<lparr>label = ''spam'', count = 747\<rparr>]"
    by simp
  from encode_decode_roundtrip
    [of "[\<lparr>label = ''ham'', count = 4827\<rparr>, \<lparr>label = ''spam'', count = 747\<rparr>]"
        "[''spam'', ''ham'', ''spam'']"] h
  show ?thesis by blast
qed

section \<open>Properties of the pipeline and of the scoring wrapper\<close>

lemma chunks_Nil: "chunks n [] = []"
  by (simp add: chunks.simps)

lemma chunks_step: "0 < n \<Longrightarrow> xs \<noteq> [] \<Longrightarrow> chunks n xs = take n xs # chunks n (drop n xs)"
  by (subst chunks.simps) simp

lemma concat_chunks: "0 < n \<Longrightarrow> concat (chunks n xs) = xs"
proof (induction n xs rule: chunks.induct)
  case (1 n xs)
  show ?case
  proof (cases "xs = []")
    case True
    then show ?thesis by (simp add: chunks_Nil)
  next
    case False
    with 1 show ?thesis by (simp add: chunks_step)
  qed
qed

lemma chunks_length_le: "c \<in> set (chunks n xs) \<Longrightarrow> length c \<le> n"
proof (induction n xs rule: chunks.induct)
  case (1 n xs)
  show ?case
  proof (cases "n = 0 \<or> xs = []")
    case True
    with "1.prems" show ?thesis by (simp add: chunks.simps)
  next
    case False
    then have "chunks n xs = take n xs # chunks n (drop n xs)" by (simp add: chunks_step)
    with 1 False show ?thesis by auto
  qed
qed

lemma apply_values_length: "apply_values f xs = Inr ys \<Longrightarrow> length ys = length xs"
  by (induction xs arbitrary: ys) (auto split: sum.splits)

lemma apply_values_map:
  "(\<And>x. x \<in> set xs \<Longrightarrow> f x = Inr (g x)) \<Longrightarrow> apply_values f xs = Inr (map g xs)"
  by (induction xs) auto

lemma preprocess_texts:
  "list_all is_text c \<Longrightarrow> apply_values (preprocess p True) c = Inr (batch_of p c)"
  unfolding batch_of_def
proof (rule apply_values_map)
  fix x assume "list_all is_text c" "x \<in> set c"
  then have "is_text x" by (simp add: list_all_iff)
  then show "preprocess p True x = Inr (truncated_tokens p (the_text x))"
    by (cases x) (simp_all add: preprocess_def truncated_tokens_def)
qed

lemma preprocess_non_text:
  "\<not> list_all is_text c \<Longrightarrow> apply_values (preprocess p tr) c = Inl InvalidInput"
proof (induction c)
  case Nil
  then show ?case by simp
next
  case (Cons x c)
  then show ?case by (cases x) (auto simp: preprocess_def split: sum.splits)
qed

lemma infer_chunk_non_text:
  "\<not> list_all is_text c \<Longrightarrow> infer_chunk p tr c = ([], Inl InvalidInput)"
  by (simp add: infer_chunk_def preprocess_non_text)

lemma batch_of_within: "s \<in> set (batch_of p c) \<Longrightarrow> length s \<le> model_max_length p"
  by (auto simp: batch_of_def truncated_tokens_def)

lemma postprocess_answers:
  assumes "model_answers p f" "length s \<le> model_max_length p"
  shows "\<exists>y. postprocess p (f s) = Inr y
       \<and> pred_label y = the (config_id2label p (int (the (argmax (f s)))))"
proof -
  from assms obtain k l where "argmax (f s) = Some k" "config_id2label p (int k) = Some l"
    unfolding model_answers_def by blast
  then show ?thesis by (simp add: postprocess_def decode_id_def)
qed

lemma postprocess_batch:
  assumes "model_answers p f" "\<forall>s \<in> set batch. length s \<le> model_max_length p"
  shows "\<exists>ys. apply_values (postprocess p) (map f batch) = Inr ys
       \<and> map pred_label ys = map (\<lambda>s. the (config_id2label p (int (the (argmax (f s)))))) batch"
  using assms(2)
proof (induction batch)
  case Nil
  then show ?case by simp
next
  case (Cons s batch)
  then obtain ys where ys: "apply_values (postprocess p) (map f batch) = Inr ys"
    "map pred_label ys = map (\<lambda>s. the (config_id2label p (int (the (argmax (f s)))))) batch"
    by auto
  from Cons.prems have "length s \<le> model_max_length p" by simp
  from postprocess_answers [OF assms(1) this] obtain y where
    "postprocess p (f s) = Inr y"
    "pred_label y = the (config_id2label p (int (the (argmax (f s)))))"
    by blast
  with ys show ?case by simp
qed

lemma infer_chunk_texts:
  assumes "model_answers p f" "list_all is_text c"
  shows "\<exists>ys. infer_chunk p True c = ([batch_of p c], Inr ys)
       \<and> map pred_label ys = map (\<lambda>x. label_for p f (the_text x)) c"
proof -
  have w: "\<forall>s \<in> set (batch_of p c). length s \<le> model_max_length p"
    by (simp add: batch_of_within)
  with assms(1) have m: "model p (batch_of p c) = Some (map f (batch_of p c))"
    unfolding model_answers_def by blast
  from postprocess_batch [OF assms(1) w] obtain ys where
    ys: "apply_values (postprocess p) (map f (batch_of p c)) = Inr ys"
    "map pred_label ys
       = map (\<lambda>s. the (config_id2label p (int (the (argmax (f s)))))) (batch_of p c)"
    by blast
  from ys(2) have "map pred_label ys = map (\<lambda>x. label_for p f (the_text x)) c"
    by (simp add: batch_of_def label_for_def comp_def)
  with ys(1) m assms(2) show ?thesis
    by (simp add: infer_chunk_def preprocess_texts)
qed

lemma run_chunks_answers:
  assumes "model_answers p f"
  shows "fst (run_chunks p True cs) = map (batch_of p) (takeWhile (list_all is_text) cs)
       \<and> (if \<forall>c \<in> set cs. list_all is_text c
          then \<exists>ys. snd (run_chunks p True cs) = Inr ys
                 \<and> map pred_label ys = map (\<lambda>x. label_for p f (the_text x)) (concat cs)
          else snd (run_chunks p True cs) = Inl InvalidInput)"
proof (induction cs)
  case Nil
  then show ?case by simp
next
  case (Cons c cs)
  show ?case
  proof (cases "list_all is_text c")
    case False
    then show ?thesis by (simp add: infer_chunk_non_text)
  next
    case True
    from infer_chunk_texts [OF assms True] obtain ys where
      ys: "infer_chunk p True c = ([batch_of p c], Inr ys)"
      "map pred_label ys = map (\<lambda>x. label_for p f (the_text x)) c"
      by blast
    show ?thesis
    proof (cases "\<forall>c \<in> set cs. list_all is_text c")
      case all: True
      with Cons.IH obtain ys' where
        "fst (run_chunks p True cs) = map (batch_of p) (takeWhile (list_all is_text) cs)"
        "snd (run_chunks p True cs) = Inr ys'"
        "map pred_label ys' = map (\<lambda>x. label_for p f (the_text x)) (concat cs)"
        by auto
      with ys True all show ?thesis
        by (cases "run_chunks p True cs") auto
    next
      case notall: False
      with Cons.IH have
        "fst (run_chunks p True cs) = map (batch_of p) (takeWhile (list_all is_text) cs)"
        "snd (run_chunks p True cs) = Inl InvalidInput"
        by auto
      with ys True notall show ?thesis
        by (cases "run_chunks p True cs") auto
    qed
  qed
qed

lemma predict_first_column:
  assumes "name \<notin> fst ` set cols" "pipeline self = Some p"
  shows "predict self ctx \<lparr>frame_index = ix, frame_columns = (name, vs) # cols\<rparr> =
     (case pipeline_call p vs True (Some 8) of
        (calls, Inl e) \<Rightarrow> ((calls, Inl e), self)
      | (calls, Inr pipe) \<Rightarrow> ((calls, Inr (pd_Series (map pred_label pipe))), self))"
proof -
  from assms(1) have "filter (\<lambda>col. fst col = name) cols = []"
    by (auto simp: filter_empty_conv)
  with assms(2) show ?thesis
    by (simp add: predict_def columns_def first_item_def frame_getitem_def to_list_def)
qed


lemma list_all_chunks:
  "0 < n \<Longrightarrow> (\<forall>c \<in> set (chunks n xs). list_all P c) \<longleftrightarrow> list_all P xs"
proof -
  assume "0 < n"
  then have "list_all P xs = list_all P (concat (chunks n xs))" by (simp add: concat_chunks)
  also have "\<dots> = (\<forall>c \<in> set (chunks n xs). list_all P c)"
    by (auto simp: list_all_iff)
  finally show ?thesis by simp
qed

lemma pipeline_call_answers:
  assumes "model_answers p f" "0 < bs"
  shows "fst (pipeline_call p cells True (Some bs))
           = map (batch_of p) (takeWhile (list_all is_text) (chunks bs cells))
       \<and> (if list_all is_text cells
          then \<exists>ys. snd (pipeline_call p cells True (Some bs)) = Inr ys
                 \<and> map pred_label ys = map (\<lambda>x. label_for p f (the_text x)) cells
          else snd (pipeline_call p cells True (Some bs)) = Inl InvalidInput)"
proof -
  from assms(2) have c: "concat (chunks bs cells) = cells"
    and a: "(\<forall>c \<in> set (chunks bs cells). list_all is_text c) \<longleftrightarrow> list_all is_text cells"
    by (simp_all add: concat_chunks list_all_chunks)
  from assms(2) have "pipeline_call p cells True (Some bs) = run_chunks p True (chunks bs cells)"
    by (simp add: pipeline_call_def)
  with run_chunks_answers [OF assms(1), of "chunks bs cells"] show ?thesis
    unfolding c a by simp
qed

lemma pipeline_call_texts:
  assumes "model_answers p f" "0 < bs"
  shows "\<exists>ys. pipeline_call p (map Str texts) True (Some bs)
               = (map (batch_of p) (chunks bs (map Str texts)), Inr ys)
           \<and> map pred_label ys = map (label_for p f) texts"
proof -
  have t: "list_all is_text (map Str texts)" by (simp add: list_all_iff)
  then have "\<forall>c \<in> set (chunks bs (map Str texts)). list_all is_text c"
    using assms(2) by (simp add: list_all_chunks)
  then have "takeWhile (list_all is_text) (chunks bs (map Str texts)) = chunks bs (map Str texts)"
    by (simp add: takeWhile_eq_all_conv)
  with pipeline_call_answers [OF assms, of "map Str texts"] t show ?thesis
    by (cases "pipeline_call p (map Str texts) True (Some bs)") (auto simp: comp_def)
qed

lemma example_answers: "model_answers example_pipeline example_scores"
  unfolding model_answers_def
proof (intro conjI allI impI)
  fix batch :: "nat list list"
  assume "\<forall>s \<in> set batch. length s \<le> model_max_length example_pipeline"
  then show "model example_pipeline batch = Some (map example_scores batch)"
    by (simp add: example_pipeline_def list_all_iff)
next
  fix s :: "nat list"
  show "\<exists>k l. argmax (example_scores s) = Some k \<and> config_id2label example_pipeline (int k) = Some l"
    by (simp add: example_scores_def example_pipeline_def id2label_eq)
qed

text \<open>The definitions a concrete call is evaluated with.\<close>

lemmas ev = predict_def columns_def first_item_def frame_getitem_def to_list_def
  pipeline_call_def chunks.simps infer_chunk_def preprocess_def postprocess_def
  example_pipeline_def example_scores_def decode_id_def id2label_eq pd_Series_def

lemma predict_texts:
  assumes "model_answers p f"
  shows "predict \<lparr>pipeline = Some p\<rparr> ctx \<lparr>frame_index = ix, frame_columns = [(name, map Str texts)]\<rparr>
       = ((map (batch_of p) (chunks 8 (map Str texts)), Inr (pd_Series (map (label_for p f) texts))),
          \<lparr>pipeline = Some p\<rparr>)"
proof -
  have "(0::nat) < 8" by simp
  from pipeline_call_texts [OF assms this, of texts] obtain ys where
    "pipeline_call p (map Str texts) True (Some 8)
       = (map (batch_of p) (chunks 8 (map Str texts)), Inr ys)"
    "map pred_label ys = map (label_for p f) texts"
    by blast
  then show ?thesis
    using predict_first_column [of name "[]" "\<lparr>pipeline = Some p\<rparr>" p ctx ix "map Str texts"]
    by simp
qed

lemma infer_chunk_calls:
  "batch \<in> set (fst (infer_chunk p tr c)) \<Longrightarrow> length batch = length c"
  by (auto simp: infer_chunk_def apply_values_length split: sum.splits option.splits)

lemma run_chunks_calls:
  "batch \<in> set (fst (run_chunks p tr cs)) \<Longrightarrow> \<exists>c \<in> set cs. length batch = length c"
proof (induction cs)
  case Nil
  then show ?case by simp
next
  case (Cons c cs)
  then show ?case
    using infer_chunk_calls [of batch p tr c]
    by (auto split: prod.splits sum.splits)
qed

lemma pipeline_call_calls:
  "batch \<in> set (fst (pipeline_call p texts tr (Some bs))) \<Longrightarrow> length batch \<le> bs"
proof -
  assume b: "batch \<in> set (fst (pipeline_call p texts tr (Some bs)))"
  then have "bs \<noteq> 0" by (auto simp: pipeline_call_def split: if_splits)
  with b have "batch \<in> set (fst (run_chunks p tr (chunks bs texts)))"
    by (simp add: pipeline_call_def)
  from run_chunks_calls [OF this] obtain c where "c \<in> set (chunks bs texts)" "length batch = length c"
    by blast
  then show ?thesis using chunks_length_le [of c bs texts] by simp
qed

lemma predict_self: "snd (predict self ctx df) = self"
  by (simp add: predict_def split: sum.splits option.splits prod.splits)

lemma pipeline_call_calls_le:
  "pipeline_call p texts tr (Some bs) = (calls, r) \<Longrightarrow> batch \<in> set calls \<Longrightarrow> length batch \<le> bs"
  using pipeline_call_calls [of batch p texts tr bs] by simp

lemma predict_calls:
  "batch \<in> set (fst (fst (predict self ctx df))) \<Longrightarrow> length batch \<le> 8"
  by (auto simp: predict_def split: sum.splits option.splits prod.splits
      dest: pipeline_call_calls_le)

lemma infer_chunk_batch_size: "infer_chunk (p\<lparr>batch_size := b\<rparr>) tr c = infer_chunk p tr c"
proof -
  have "preprocess (p\<lparr>batch_size := b\<rparr>) tr = preprocess p tr"
    by (simp add: fun_eq_iff preprocess_def split: cell.splits)
  moreover have "postprocess (p\<lparr>batch_size := b\<rparr>) = postprocess p"
    by (simp add: fun_eq_iff postprocess_def split: option.splits sum.splits)
  ultimately show ?thesis by (simp add: infer_chunk_def split: sum.splits option.splits)
qed

lemma run_chunks_batch_size: "run_chunks (p\<lparr>batch_size := b\<rparr>) tr cs = run_chunks p tr cs"
  by (induction cs) (simp_all add: infer_chunk_batch_size)

lemma chunks_single: "chunks 8 [x] = [[x]]"
  by (simp add: chunks.simps)

lemma predict_cells:
  assumes "model_answers p f"
  shows "fst (fst (predict \<lparr>pipeline = Some p\<rparr> ctx \<lparr>frame_index = ix, frame_columns = [(name, cells)]\<rparr>))
           = map (batch_of p) (takeWhile (list_all is_text) (chunks 8 cells))
       \<and> snd (fst (predict \<lparr>pipeline = Some p\<rparr> ctx \<lparr>frame_index = ix, frame_columns = [(name, cells)]\<rparr>))
           = (if list_all is_text cells
              then Inr (pd_Series (map (\<lambda>x. label_for p f (the_text x)) cells))
              else Inl InvalidInput)"
proof -
  have "(0::nat) < 8" by simp
  from pipeline_call_answers [OF assms this, of cells]
  show ?thesis
    using predict_first_column [of name "[]" "\<lparr>pipeline = Some p\<rparr>" p ctx ix cells]
    by (cases "pipeline_call p cells True (Some 8)") (auto split: if_splits)
qed

lemma predict_index:
  "snd (fst (predict self ctx df)) = Inr s \<Longrightarrow> index s = map int [0..<length (values s)]"
  by (auto simp: predict_def pd_Series_def split: sum.splits option.splits prod.splits)

lemma chunks_nth_length:
  "j < length (chunks n xs) \<Longrightarrow> length (chunks n xs ! j) = min n (length xs - n * j)"
proof (induction n xs arbitrary: j rule: chunks.induct)
  case (1 n xs)
  show ?case
  proof (cases "n = 0 \<or> xs = []")
    case True
    with "1.prems" show ?thesis by (simp add: chunks.simps)
  next
    case False
    then have c: "chunks n xs = take n xs # chunks n (drop n xs)" by (simp add: chunks_step)
    show ?thesis
    proof (cases j)
      case 0
      with c show ?thesis by (simp add: min.commute)
    next
      case (Suc k)
      with "1.prems" c have "k < length (chunks n (drop n xs))" by simp
      from "1.IH" [OF False this] have
        "length (chunks n (drop n xs) ! k) = min n (length xs - n - n * k)" by simp
      with c Suc show ?thesis by (simp add: diff_diff_left)
    qed
  qed
qed

lemma length_chunks: "0 < n \<Longrightarrow> length (chunks n xs) = (length xs + n - 1) div n"
proof (induction n xs rule: chunks.induct)
  case (1 n xs)
  show ?case
  proof (cases "xs = []")
    case True
    with "1.prems" show ?thesis by (simp add: chunks_Nil)
  next
    case False
    with "1.prems" have c: "chunks n xs = take n xs # chunks n (drop n xs)"
      by (simp add: chunks_step)
    from False "1.prems" have "\<not> (n = 0 \<or> xs = [])" by simp
    from "1.IH" [OF this "1.prems"]
    have ih: "length (chunks n (drop n xs)) = (length xs - n + n - 1) div n" by simp
    show ?thesis
    proof (cases "n \<le> length xs")
      case True
      have a: "(length xs - 1 + n) div n = Suc ((length xs - 1) div n)"
        using div_add_self2 [of n "length xs - 1"] "1.prems" by simp
      from True "1.prems" have b: "length xs + n - 1 = length xs - 1 + n" by linarith
      from True have d: "length xs - n + n - 1 = length xs - 1" by linarith
      from c have "length (chunks n xs) = Suc (length (chunks n (drop n xs)))" by simp
      also have "\<dots> = Suc ((length xs - 1) div n)" unfolding ih d ..
      also have "\<dots> = (length xs + n - 1) div n" unfolding b a ..
      finally show ?thesis .
    next
      case less: False
      with False have l: "0 < length xs" "length xs < n" by simp_all
      then have "(length xs + n - 1) div n = 1"
      proof (intro div_nat_eqI)
        from l show "n * 1 \<le> length xs + n - 1" by linarith
        from l show "length xs + n - 1 < n * Suc 1" by simp
      qed
      moreover from less have "drop n xs = []" by simp
      ultimately show ?thesis using c by (simp add: chunks_Nil)
    qed
  qed
qed

lemma infer_chunk_shape:
  "(\<exists>e. infer_chunk p tr c = ([], Inl e))
   \<or> (\<exists>batch r. infer_chunk p tr c = ([batch], r) \<and> length batch = length c)"
  by (auto simp: infer_chunk_def apply_values_length split: sum.splits option.splits)

lemma run_chunks_calls_nth:
  "j < length (fst (run_chunks p tr cs)) \<Longrightarrow>
   j < length cs \<and> length (fst (run_chunks p tr cs) ! j) = length (cs ! j)"
proof (induction cs arbitrary: j)
  case Nil
  then show ?case by simp
next
  case (Cons c cs)
  from infer_chunk_shape [of p tr c] show ?case
  proof
    assume "\<exists>e. infer_chunk p tr c = ([], Inl e)"
    with Cons.prems show ?thesis by auto
  next
    assume "\<exists>batch r. infer_chunk p tr c = ([batch], r) \<and> length batch = length c"
    then obtain batch r where b: "infer_chunk p tr c = ([batch], r)" "length batch = length c"
      by blast
    show ?thesis
    proof (cases r)
      case (Inl e)
      with b Cons.prems show ?thesis by simp
    next
      case (Inr ys)
      with b have t: "fst (run_chunks p tr (c # cs)) = batch # fst (run_chunks p tr cs)"
        by (simp split: prod.splits sum.splits)
      show ?thesis
      proof (cases j)
        case 0
        with t b show ?thesis by simp
      next
        case (Suc k)
        with Cons.prems t have "k < length (fst (run_chunks p tr cs))" by simp
        from Cons.IH [OF this] t Suc show ?thesis by simp
      qed
    qed
  qed
qed

lemma pipeline_call_calls_nth:
  assumes "j < length (fst (pipeline_call p texts tr (Some 8)))"
  shows "length (fst (pipeline_call p texts tr (Some 8)) ! j) = min 8 (length texts - 8 * j)"
proof -
  have e: "pipeline_call p texts tr (Some 8) = run_chunks p tr (chunks 8 texts)"
    by (simp add: pipeline_call_def)
  with assms have "j < length (fst (run_chunks p tr (chunks 8 texts)))" by simp
  from run_chunks_calls_nth [OF this] e
  have "j < length (chunks 8 texts)"
    "length (fst (pipeline_call p texts tr (Some 8)) ! j) = length (chunks 8 texts ! j)"
    by simp_all
  then show ?thesis by (simp add: chunks_nth_length)
qed

lemma predict_one_column:
  "fst (predict \<lparr>pipeline = Some p\<rparr> ctx \<lparr>frame_index = ix, frame_columns = [(name, cells)]\<rparr>)
     = (fst (pipeline_call p cells True (Some 8)),
        (case snd (pipeline_call p cells True (Some 8)) of
           Inl e \<Rightarrow> Inl e
         | Inr pipe \<Rightarrow> Inr \<lparr>index = map int [0..<length pipe], values = map pred_label pipe\<rparr>))"
  using predict_first_column [of name "[]" "\<lparr>pipeline = Some p\<rparr>" p ctx ix cells]
  by (simp add: pd_Series_def split: prod.splits sum.splits)


lemma model_answers_batch_size:
  "model_answers (p\<lparr>batch_size := b\<rparr>) f = model_answers p f"
  by (simp add: model_answers_def)

lemma predict_texts_series:
  assumes "model_answers p f"
  shows "predict \<lparr>pipeline = Some p\<rparr> ctx \<lparr>frame_index = ix, frame_columns = [(name, map Str texts)]\<rparr>
       = ((map (batch_of p) (chunks 8 (map Str texts)),
           Inr \<lparr>index = map int [0..<length texts], values = map (label_for p f) texts\<rparr>),
          \<lparr>pipeline = Some p\<rparr>)"
  by (simp add: predict_texts [OF assms] pd_Series_def)

section \<open>Claims about the scoring wrapper\<close>




text \<open>
  C5. On a column with no texts \<open>predict\<close> returns the empty series, and no batch is
  submitted to the model.
\<close>

theorem predict_empty:
  "predict \<lparr>pipeline = Some p\<rparr> ctx \<lparr>frame_index = ix, frame_columns = [(name, [])]\<rparr>
     = (([], Inr (pd_Series [])), \<lparr>pipeline = Some p\<rparr>)"
  by (simp add: predict_def columns_def first_item_def frame_getitem_def to_list_def
      pipeline_call_def chunks.simps)

text \<open>
  C8. \<open>predict\<close> takes the object, the context and the input frame, and no batch size; at
  every call it hands the batch size 8 to the pipeline, so the batch size the pipeline was
  constructed with makes no difference: the batches submitted to the model are those of the
  pipeline call with batch size 8, the j-th of them holds 8 sequences, or what is left of
  the column after 8 j of them, and when the model answers they are all the chunks of 8 of
  the column. The object after a call is the object before it, so a call behaves the same
  whatever calls came before.
\<close>

theorem predict_batch_size_fixed:
  "snd (predict self ctx df) = self
   \<and> fst (predict (snd (predict self ctx df)) ctx' df') = fst (predict self ctx' df')
   \<and> fst (predict \<lparr>pipeline = Some (p\<lparr>batch_size := b\<rparr>)\<rparr> ctx df)
       = fst (predict \<lparr>pipeline = Some p\<rparr> ctx df)
   \<and> (\<forall>batch \<in> set (fst (fst (predict self ctx df))). length batch \<le> 8)
   \<and> fst (fst (predict \<lparr>pipeline = Some p\<rparr> ctx \<lparr>frame_index = ix, frame_columns = [(name, cells)]\<rparr>))
       = fst (pipeline_call p cells True (Some 8))
   \<and> (\<forall>j < length (fst (fst (predict \<lparr>pipeline = Some p\<rparr> ctx
                      \<lparr>frame_index = ix, frame_columns = [(name, cells)]\<rparr>))).
         length (fst (fst (predict \<lparr>pipeline = Some p\<rparr> ctx
                      \<lparr>frame_index = ix, frame_columns = [(name, cells)]\<rparr>)) ! j)
           = min 8 (length cells - 8 * j))
   \<and> (model_answers p f \<and> list_all is_text cells \<longrightarrow>
         fst (fst (predict \<lparr>pipeline = Some p\<rparr> ctx \<lparr>frame_index = ix, frame_columns = [(name, cells)]\<rparr>))
           = map (batch_of p) (chunks 8 cells)
       \<and> length (chunks 8 cells) = (length cells + 7) div 8
       \<and> concat (chunks 8 cells) = cells)"
proof (intro conjI)
  show "snd (predict self ctx df) = self" by (rule predict_self)
  then show "fst (predict (snd (predict self ctx df)) ctx' df') = fst (predict self ctx' df')"
    by simp
  show "fst (predict \<lparr>pipeline = Some (p\<lparr>batch_size := b\<rparr>)\<rparr> ctx df)
       = fst (predict \<lparr>pipeline = Some p\<rparr> ctx df)"
    by (simp add: predict_def pipeline_call_def run_chunks_batch_size
        split: sum.splits option.splits prod.splits)
  show "\<forall>batch \<in> set (fst (fst (predict self ctx df))). length batch \<le> 8"
    using predict_calls by blast
  show e: "fst (fst (predict \<lparr>pipeline = Some p\<rparr> ctx \<lparr>frame_index = ix, frame_columns = [(name, cells)]\<rparr>))
       = fst (pipeline_call p cells True (Some 8))"
    by (simp add: predict_one_column)
  show "\<forall>j < length (fst (fst (predict \<lparr>pipeline = Some p\<rparr> ctx
                      \<lparr>frame_index = ix, frame_columns = [(name, cells)]\<rparr>))).
         length (fst (fst (predict \<lparr>pipeline = Some p\<rparr> ctx
                      \<lparr>frame_index = ix, frame_columns = [(name, cells)]\<rparr>)) ! j)
           = min 8 (length cells - 8 * j)"
    unfolding e using pipeline_call_calls_nth by blast
  show "model_answers p f \<and> list_all is_text cells \<longrightarrow>
         fst (fst (predict \<lparr>pipeline = Some p\<rparr> ctx \<lparr>frame_index = ix, frame_columns = [(name, cells)]\<rparr>))
           = map (batch_of p) (chunks 8 cells)
       \<and> length (chunks 8 cells) = (length cells + 7) div 8
       \<and> concat (chunks 8 cells) = cells"
  proof (intro impI conjI)
    assume a: "model_answers p f \<and> list_all is_text cells"
    have pos: "(0::nat) < 8" by simp
    from a have "\<forall>c \<in> set (chunks 8 cells). list_all is_text c"
      by (simp add: list_all_chunks)
    then have t: "takeWhile (list_all is_text) (chunks 8 cells) = chunks 8 cells"
      by (simp add: takeWhile_eq_all_conv)
    from a pipeline_call_answers [OF _ pos, of p f cells]
    have "fst (pipeline_call p cells True (Some 8))
            = map (batch_of p) (takeWhile (list_all is_text) (chunks 8 cells))"
      by blast
    then show "fst (fst (predict \<lparr>pipeline = Some p\<rparr> ctx
                      \<lparr>frame_index = ix, frame_columns = [(name, cells)]\<rparr>))
           = map (batch_of p) (chunks 8 cells)"
      unfolding e t .
    show "length (chunks 8 cells) = (length cells + 7) div 8"
      using length_chunks [OF pos, of cells] by simp
    show "concat (chunks 8 cells) = cells"
      by (rule concat_chunks [OF pos])
  qed
qed

theorem predict_batch_size_fixed_witness:
  "fst (fst (predict \<lparr>pipeline = Some (example_pipeline\<lparr>batch_size := 2\<rparr>)\<rparr> \<lparr>artifacts = Map.empty\<rparr>
        \<lparr>frame_index = [0, 1, 2, 3, 4, 5, 6, 7, 8, 9],
         frame_columns = [(''text'', map Str [''free'', ''see'', ''win'', ''lunch'', ''hi'',
                                              ''ok'', ''yes'', ''no'', ''fine'', ''well''])]\<rparr>))
     = [[[1, 0, 0, 0], [0, 0, 0], [1, 0, 0], [0, 0, 0, 0, 0], [0, 0], [0, 0], [0, 0, 0], [0, 0]],
        [[1, 0, 0, 0], [1, 0, 0, 0]]]
   \<and> fst (fst (predict \<lparr>pipeline = Some (example_pipeline\<lparr>batch_size := 2\<rparr>)\<rparr> \<lparr>artifacts = Map.empty\<rparr>
        \<lparr>frame_index = [0, 1, 2, 3, 4, 5, 6, 7, 8, 9],
         frame_columns = [(''text'', map Str [''free'', ''see'', ''win'', ''lunch'', ''hi'',
                                              ''ok'', ''yes'', ''no'', ''fine'', ''well''])]\<rparr>))
     = fst (pipeline_call (example_pipeline\<lparr>batch_size := 2\<rparr>)
          (map Str [''free'', ''see'', ''win'', ''lunch'', ''hi'', ''ok'', ''yes'', ''no'', ''fine'', ''well''])
          True (Some 8))
   \<and> list_all (\<lambda>batch. length batch \<le> 8)
        (fst (fst (predict \<lparr>pipeline = Some (example_pipeline\<lparr>batch_size := 2\<rparr>)\<rparr>
        \<lparr>artifacts = Map.empty\<rparr>
        \<lparr>frame_index = [0, 1, 2, 3, 4, 5, 6, 7, 8, 9],
         frame_columns = [(''text'', map Str [''free'', ''see'', ''win'', ''lunch'', ''hi'',
                                              ''ok'', ''yes'', ''no'', ''fine'', ''well''])]\<rparr>)))
   \<and> length (fst (fst (predict \<lparr>pipeline = Some (example_pipeline\<lparr>batch_size := 2\<rparr>)\<rparr>
        \<lparr>artifacts = Map.empty\<rparr>
        \<lparr>frame_index = [0, 1, 2, 3, 4, 5, 6, 7, 8, 9],
         frame_columns = [(''text'', map Str [''free'', ''see'', ''win'', ''lunch'', ''hi'',
                                              ''ok'', ''yes'', ''no'', ''fine'', ''well''])]\<rparr>)) ! 1)
       = 2
   \<and> snd (predict \<lparr>pipeline = Some (example_pipeline\<lparr>batch_size := 2\<rparr>)\<rparr> \<lparr>artifacts = Map.empty\<rparr>
        \<lparr>frame_index = [0, 1, 2, 3, 4, 5, 6, 7, 8, 9],
         frame_columns = [(''text'', map Str [''free'', ''see'', ''win'', ''lunch'', ''hi'',
                                              ''ok'', ''yes'', ''no'', ''fine'', ''well''])]\<rparr>)
     = \<lparr>pipeline = Some (example_pipeline\<lparr>batch_size := 2\<rparr>)\<rparr>
   \<and> model_answers (example_pipeline\<lparr>batch_size := 2\<rparr>) example_scores
   \<and> list_all is_text (map Str [''free'', ''see'', ''win'', ''lunch'', ''hi'',
                                 ''ok'', ''yes'', ''no'', ''fine'', ''well''])
   \<and> length (chunks 8 (map Str [''free'', ''see'', ''win'', ''lunch'', ''hi'',
                                  ''ok'', ''yes'', ''no'', ''fine'', ''well''])) = 2"
proof -
  let ?p = "example_pipeline\<lparr>batch_size := 2\<rparr>"
  let ?cells = "map Str [''free'', ''see'', ''win'', ''lunch'', ''hi'',
                         ''ok'', ''yes'', ''no'', ''fine'', ''well'']"
  let ?df = "\<lparr>frame_index = [0, 1, 2, 3, 4, 5, 6, 7, 8, 9], frame_columns = [(''text'', ?cells)]\<rparr>"
  let ?calls = "fst (fst (predict \<lparr>pipeline = Some ?p\<rparr> \<lparr>artifacts = Map.empty\<rparr> ?df))"
  have c: "?calls
     = [[[1, 0, 0, 0], [0, 0, 0], [1, 0, 0], [0, 0, 0, 0, 0], [0, 0], [0, 0], [0, 0, 0], [0, 0]],
        [[1, 0, 0, 0], [1, 0, 0, 0]]]"
    by (simp add: ev)
  have m: "model_answers ?p example_scores"
    by (simp add: model_answers_batch_size example_answers)
  have t: "list_all is_text ?cells" by simp
  note inst = predict_batch_size_fixed
    [where self = "\<lparr>pipeline = Some ?p\<rparr>" and ctx = "\<lparr>artifacts = Map.empty\<rparr>" and df = ?df
       and p = ?p and ix = "[0, 1, 2, 3, 4, 5, 6, 7, 8, 9]" and name = "''text''"
       and cells = ?cells and f = example_scores]
  from inst have 1: "snd (predict \<lparr>pipeline = Some ?p\<rparr> \<lparr>artifacts = Map.empty\<rparr> ?df)
      = \<lparr>pipeline = Some ?p\<rparr>"
    by blast
  from inst have 2: "?calls = fst (pipeline_call ?p ?cells True (Some 8))"
    by blast
  from inst have "\<forall>batch \<in> set ?calls. length batch \<le> 8" by blast
  then have 3: "list_all (\<lambda>batch. length batch \<le> 8) ?calls"
    by (simp only: list_all_iff)
  from inst have "\<forall>j < length ?calls. length (?calls ! j) = min 8 (length ?cells - 8 * j)"
    by blast
  moreover from c have "1 < length ?calls" by simp
  ultimately have "length (?calls ! 1) = min 8 (length ?cells - 8 * 1)" by blast
  then have 4: "length (?calls ! 1) = 2" by simp
  from inst m t have "length (chunks 8 ?cells) = (length ?cells + 7) div 8" by blast
  then have 5: "length (chunks 8 ?cells) = 2" by simp
  from c 1 2 3 4 5 m t show ?thesis by blast
qed

text \<open>
  C7. \<open>predict\<close> passes \<open>truncation=True\<close>: a text, however long, reaches the model as
  its first \<open>model_max_length\<close> tokens and gets exactly one label; for any column of texts
  every sequence submitted to the model is within the maximum length and the result has
  one label per text, provided the model answers the batches that are within the maximum
  length. \<open>tokenize_function\<close> cuts the training texts in the same way.
\<close>

theorem predict_truncates:
  assumes "model_answers p f"
  shows "fst (predict \<lparr>pipeline = Some p\<rparr> ctx \<lparr>frame_index = ix, frame_columns = [(name, [Str t])]\<rparr>)
           = ([[take (model_max_length p) (tokenizer p t)]],
              Inr \<lparr>index = [0], values = [label_for p f t]\<rparr>)
       \<and> (\<exists>s. snd (fst (predict \<lparr>pipeline = Some p\<rparr> ctx
                  \<lparr>frame_index = ix, frame_columns = [(name, map Str texts)]\<rparr>)) = Inr s
              \<and> length (values s) = length texts
              \<and> index s = map int [0..<length texts])
       \<and> (\<forall>batch \<in> set (fst (fst (predict \<lparr>pipeline = Some p\<rparr> ctx
                  \<lparr>frame_index = ix, frame_columns = [(name, map Str texts)]\<rparr>))).
            \<forall>s \<in> set batch. length s \<le> model_max_length p)
       \<and> length (tokenize_function (tokenizer p) (model_max_length p) texts) = length texts
       \<and> (\<forall>s \<in> set (tokenize_function (tokenizer p) (model_max_length p) texts).
            length s \<le> model_max_length p)"
proof -
  have 1: "fst (predict \<lparr>pipeline = Some p\<rparr> ctx \<lparr>frame_index = ix, frame_columns = [(name, [Str t])]\<rparr>)
           = ([[take (model_max_length p) (tokenizer p t)]],
              Inr \<lparr>index = [0], values = [label_for p f t]\<rparr>)"
    using predict_texts_series [OF assms, of ctx ix name "[t]"]
    by (simp add: chunks_single batch_of_def truncated_tokens_def)
  have 2: "\<exists>s. snd (fst (predict \<lparr>pipeline = Some p\<rparr> ctx
                  \<lparr>frame_index = ix, frame_columns = [(name, map Str texts)]\<rparr>)) = Inr s
              \<and> length (values s) = length texts
              \<and> index s = map int [0..<length texts]"
    by (simp add: predict_texts_series [OF assms])
  have 3: "\<forall>batch \<in> set (fst (fst (predict \<lparr>pipeline = Some p\<rparr> ctx
                  \<lparr>frame_index = ix, frame_columns = [(name, map Str texts)]\<rparr>))).
            \<forall>s \<in> set batch. length s \<le> model_max_length p"
    by (auto simp: predict_texts [OF assms] batch_of_within)
  have 4: "length (tokenize_function (tokenizer p) (model_max_length p) texts) = length texts"
    by (simp add: tokenize_function_def tokenizer_call_def)
  have 5: "\<forall>s \<in> set (tokenize_function (tokenizer p) (model_max_length p) texts).
            length s \<le> model_max_length p"
    by (auto simp: tokenize_function_def tokenizer_call_def)
  from 1 2 3 4 5 show ?thesis by blast
qed

theorem predict_truncates_witness:
  "model_answers example_pipeline example_scores
   \<and> model_max_length example_pipeline < length (tokenizer example_pipeline ''free money now'')
   \<and> fst (predict \<lparr>pipeline = Some example_pipeline\<rparr> \<lparr>artifacts = Map.empty\<rparr>
          \<lparr>frame_index = [0], frame_columns = [(''text'', [Str ''free money now''])]\<rparr>)
       = ([[take (model_max_length example_pipeline) (tokenizer example_pipeline ''free money now'')]],
          Inr \<lparr>index = [0], values = [label_for example_pipeline example_scores ''free money now'']\<rparr>)
   \<and> fst (predict \<lparr>pipeline = Some example_pipeline\<rparr> \<lparr>artifacts = Map.empty\<rparr>
          \<lparr>frame_index = [0], frame_columns = [(''text'', [Str ''free money now''])]\<rparr>)
       = ([[[1, 0, 0, 0, 0, 0, 0, 0]]], Inr \<lparr>index = [0], values = [''spam'']\<rparr>)
   \<and> snd (pipeline_call example_pipeline [Str ''free money now''] False (Some 8)) = Inl InferenceError
   \<and> tokenize_function (tokenizer example_pipeline) (model_max_length example_pipeline) [''free money now'']
       = [[1, 0, 0, 0, 0, 0, 0, 0]]"
proof -
  note a = example_answers
  have l: "model_max_length example_pipeline < length (tokenizer example_pipeline ''free money now'')"
    by (simp add: example_pipeline_def)
  have v: "fst (predict \<lparr>pipeline = Some example_pipeline\<rparr> \<lparr>artifacts = Map.empty\<rparr>
          \<lparr>frame_index = [0], frame_columns = [(''text'', [Str ''free money now''])]\<rparr>)
       = ([[[1, 0, 0, 0, 0, 0, 0, 0]]], Inr \<lparr>index = [0], values = [''spam'']\<rparr>)"
    by (simp add: ev)
  have u: "snd (pipeline_call example_pipeline [Str ''free money now''] False (Some 8)) = Inl InferenceError"
    by (simp add: ev)
  have k: "tokenize_function (tokenizer example_pipeline) (model_max_length example_pipeline) [''free money now'']
       = [[1, 0, 0, 0, 0, 0, 0, 0]]"
    by (simp add: tokenize_function_def tokenizer_call_def example_pipeline_def)
  from predict_truncates [OF a, of "\<lparr>artifacts = Map.empty\<rparr>" "[0]" "''text''" "''free money now''"]
    a l v u k
  show ?thesis by simp
qed

text \<open>
  C6, as the specification states it, fails: with eight texts followed by \<open>None\<close> the first
  chunk of eight has been submitted to the model when the call is refused.
\<close>

theorem predict_malformed_counterexample:
  "fst (predict \<lparr>pipeline = Some example_pipeline\<rparr> \<lparr>artifacts = Map.empty\<rparr>
      \<lparr>frame_index = [0, 1, 2, 3, 4, 5, 6, 7, 8],
       frame_columns = [(''text'', [Str ''free'', Str ''see'', Str ''win'', Str ''lunch'', Str ''hi'',
                                    Str ''ok'', Str ''yes'', Str ''no'', Null])]\<rparr>)
     = ([[[1, 0, 0, 0], [0, 0, 0], [1, 0, 0], [0, 0, 0, 0, 0], [0, 0], [0, 0], [0, 0, 0], [0, 0]]],
        Inl InvalidInput)"
  by (simp add: ev)

text \<open>
  C6, amended. \<open>predict\<close> checks nothing itself and hands the column to the pipeline.
  When the model answers, a column of strings gets its labels and no error is raised; a
  column with a non-string element is refused with \<open>InvalidInput\<close> and no labels are
  returned. In both cases the batches the model has seen are those of the chunks (of 8)
  that come before the first chunk holding a non-string element: that chunk and the later
  ones never reach the model, the earlier ones do.
\<close>

theorem predict_rejects_at_chunk:
  assumes "model_answers p f"
  shows "(list_all is_text cells \<longrightarrow>
            snd (fst (predict \<lparr>pipeline = Some p\<rparr> ctx \<lparr>frame_index = ix, frame_columns = [(name, cells)]\<rparr>))
              = Inr (pd_Series (map (\<lambda>x. label_for p f (the_text x)) cells)))
       \<and> (\<not> list_all is_text cells \<longrightarrow>
            snd (fst (predict \<lparr>pipeline = Some p\<rparr> ctx \<lparr>frame_index = ix, frame_columns = [(name, cells)]\<rparr>))
              = Inl InvalidInput)
       \<and> fst (fst (predict \<lparr>pipeline = Some p\<rparr> ctx \<lparr>frame_index = ix, frame_columns = [(name, cells)]\<rparr>))
           = map (batch_of p) (takeWhile (list_all is_text) (chunks 8 cells))"
  using predict_cells [OF assms, of ctx ix name cells] by simp

theorem predict_rejects_at_chunk_witness:
  "model_answers example_pipeline example_scores
   \<and> list_all is_text [Str ''free'', Str ''see'']
   \<and> snd (fst (predict \<lparr>pipeline = Some example_pipeline\<rparr> \<lparr>artifacts = Map.empty\<rparr>
        \<lparr>frame_index = [0, 1], frame_columns = [(''text'', [Str ''free'', Str ''see''])]\<rparr>))
       = Inr (pd_Series [''spam'', ''ham''])
   \<and> \<not> list_all is_text [Str ''free'', Str ''see'', Str ''win'', Str ''lunch'', Str ''hi'',
                            Str ''ok'', Str ''yes'', Str ''no'', Null, Str ''fine'']
   \<and> snd (fst (predict \<lparr>pipeline = Some example_pipeline\<rparr> \<lparr>artifacts = Map.empty\<rparr>
        \<lparr>frame_index = [0, 1, 2, 3, 4, 5, 6, 7, 8, 9],
         frame_columns = [(''text'', [Str ''free'', Str ''see'', Str ''win'', Str ''lunch'', Str ''hi'',
                                      Str ''ok'', Str ''yes'', Str ''no'', Null, Str ''fine''])]\<rparr>))
       = Inl InvalidInput
   \<and> fst (fst (predict \<lparr>pipeline = Some example_pipeline\<rparr> \<lparr>artifacts = Map.empty\<rparr>
        \<lparr>frame_index = [0, 1, 2, 3, 4, 5, 6, 7, 8, 9],
         frame_columns = [(''text'', [Str ''free'', Str ''see'', Str ''win'', Str ''lunch'', Str ''hi'',
                                      Str ''ok'', Str ''yes'', Str ''no'', Null, Str ''fine''])]\<rparr>))
       = map (batch_of example_pipeline) (takeWhile (list_all is_text)
           (chunks 8 [Str ''free'', Str ''see'', Str ''win'', Str ''lunch'', Str ''hi'',
                      Str ''ok'', Str ''yes'', Str ''no'', Null, Str ''fine'']))"
proof -
  note a = example_answers
  have l: "label_for example_pipeline example_scores ''free'' = ''spam''"
    "label_for example_pipeline example_scores ''see'' = ''ham''"
    by (simp_all add: label_for_def truncated_tokens_def example_pipeline_def example_scores_def
        id2label_eq)
  from predict_rejects_at_chunk [OF a, of "[Str ''free'', Str ''see'']"
      "\<lparr>artifacts = Map.empty\<rparr>" "[0, 1]" "''text''"]
    predict_rejects_at_chunk [OF a, of "[Str ''free'', Str ''see'', Str ''win'', Str ''lunch'',
      Str ''hi'', Str ''ok'', Str ''yes'', Str ''no'', Null, Str ''fine'']"
      "\<lparr>artifacts = Map.empty\<rparr>" "[0, 1, 2, 3, 4, 5, 6, 7, 8, 9]" "''text''"]
    a l
  show ?thesis by simp
qed

text \<open>
  C10, as stated for every data frame, fails: when another column carries the label of
  the first column, \<open>model_input[model_input.columns[0]]\<close> is a data frame, which has no
  \<open>to_list\<close>.
\<close>

theorem predict_repeated_label_counterexample:
  "snd (fst (predict \<lparr>pipeline = Some example_pipeline\<rparr> \<lparr>artifacts = Map.empty\<rparr>
      \<lparr>frame_index = [0],
       frame_columns = [(''text'', [Str ''free'']), (''text'', [Str ''see''])]\<rparr>))
     = Inl AttributeError"
  by (simp add: ev)

text \<open>
  C10, amended. For a data frame whose first column's label is carried by no other
  column, \<open>predict\<close> reads the first column only: the outcome is that of the frame with
  that column alone, under any index, column label and context; and a returned series is
  indexed \<open>0, 1, ...\<close> whatever the index of the input frame.
\<close>

theorem predict_first_column_only:
  assumes "name \<notin> fst ` set cols"
  shows "fst (predict self ctx \<lparr>frame_index = ix, frame_columns = (name, vs) # cols\<rparr>)
           = fst (predict self ctx' \<lparr>frame_index = ix', frame_columns = [(name', vs)]\<rparr>)
       \<and> (\<forall>s. snd (fst (predict self ctx \<lparr>frame_index = ix, frame_columns = (name, vs) # cols\<rparr>)) = Inr s
              \<longrightarrow> index s = map int [0..<length (values s)])"
proof
  show "fst (predict self ctx \<lparr>frame_index = ix, frame_columns = (name, vs) # cols\<rparr>)
           = fst (predict self ctx' \<lparr>frame_index = ix', frame_columns = [(name', vs)]\<rparr>)"
  proof (cases "pipeline self")
    case None
    from assms have "filter (\<lambda>col. fst col = name) cols = []"
      by (auto simp: filter_empty_conv)
    with None show ?thesis
      by (simp add: predict_def columns_def first_item_def frame_getitem_def to_list_def)
  next
    case (Some p)
    from predict_first_column [OF assms Some, of ctx ix vs]
      predict_first_column [of name' "[]" self p ctx' ix' vs] Some
    show ?thesis by simp
  qed
  show "\<forall>s. snd (fst (predict self ctx \<lparr>frame_index = ix, frame_columns = (name, vs) # cols\<rparr>)) = Inr s
              \<longrightarrow> index s = map int [0..<length (values s)]"
    using predict_index by blast
qed

theorem predict_first_column_only_witness:
  "''text'' \<notin> fst ` set [(''id'', [Num 41, Num 42])]
   \<and> fst (predict \<lparr>pipeline = Some example_pipeline\<rparr> \<lparr>artifacts = Map.empty\<rparr>
        \<lparr>frame_index = [5, 7],
         frame_columns = [(''text'', [Str ''free'', Str ''see'']), (''id'', [Num 41, Num 42])]\<rparr>)
     = fst (predict \<lparr>pipeline = Some example_pipeline\<rparr> \<lparr>artifacts = Map.empty\<rparr>
        \<lparr>frame_index = [0, 1], frame_columns = [(''text'', [Str ''free'', Str ''see''])]\<rparr>)
   \<and> snd (fst (predict \<lparr>pipeline = Some example_pipeline\<rparr> \<lparr>artifacts = Map.empty\<rparr>
        \<lparr>frame_index = [5, 7],
         frame_columns = [(''text'', [Str ''free'', Str ''see'']), (''id'', [Num 41, Num 42])]\<rparr>))
     = Inr \<lparr>index = [0, 1], values = [''spam'', ''ham'']\<rparr>"
proof -
  have n: "''text'' \<notin> fst ` set [(''id'', [Num 41, Num 42])]" by simp
  have v: "snd (fst (predict \<lparr>pipeline = Some example_pipeline\<rparr> \<lparr>artifacts = Map.empty\<rparr>
        \<lparr>frame_index = [5, 7],
         frame_columns = [(''text'', [Str ''free'', Str ''see'']), (''id'', [Num 41, Num 42])]\<rparr>))
     = Inr \<lparr>index = [0, 1], values = [''spam'', ''ham'']\<rparr>"
    by (simp add: ev)
  from predict_first_column_only [OF n, of "\<lparr>pipeline = Some example_pipeline\<rparr>"
      "\<lparr>artifacts = Map.empty\<rparr>" "[5, 7]" "[Str ''free'', Str ''see'']"
      "\<lparr>artifacts = Map.empty\<rparr>" "[0, 1]" "''text''"] n v
  show ?thesis by simp
qed

end
